theory Spec2Isabelle
  imports Main "HOL-Library.AList"
begin

section \<open>The S3 remote transfer handler (remotehandlers/s3.py)\<close>

text \<open>
  The handler talks to the object store through a boto3 client. The client is not part
  of the handler's source, so it is a parameter of the model: a function that answers a
  call, given the calls issued before it. Every call either raises or returns a response,
  and every function of the handler returns its outcome together with the extended call
  log. Logging has no influence on results and is left out.
\<close>

subsection \<open>Data\<close>

datatype exn =
    ClientError string
  | KeyError string
  | ReError string
  | NotImplementedError

text \<open>The keyword arguments of \<open>list_objects_v2\<close>, as \<open>list_files\<close> builds them.\<close>

record list_kwargs =
  Bucket :: string
  MaxKeys :: int
  Prefix :: "string option"
  ContinuationToken :: "string option"

text \<open>An entry of a listing page; the handler reads its key only.\<close>

record s3_object =
  Key :: string

record list_response =
  KeyCount :: int
  Contents :: "s3_object list"
  NextContinuationToken :: "string option"

text \<open>
  The answer of \<open>head_object\<close>. \<open>LastModified\<close> stands for the number that
  \<open>LastModified.timestamp()\<close> yields.
\<close>

record head_response =
  ContentLength :: int
  LastModified :: int

datatype response =
    ListResponse list_response
  | HeadResponse head_response
  | OtherResponse "string list"

text \<open>
  The client calls the handler makes, with the arguments it passes:
  \<open>DeleteObjects Bucket keys Quiet\<close>,
  \<open>CopyObject Bucket source_bucket source_key Key\<close>,
  \<open>HeadObject Bucket Key\<close>,
  \<open>UploadFile filename bucket key ExtraArgs\<close>,
  \<open>DownloadFile bucket key filename\<close> and
  \<open>Copy source_bucket source_key bucket key\<close>.
\<close>

datatype s3_call =
    DeleteObjects string "string list" bool
  | CopyObject string string string string
  | ListObjectsV2 list_kwargs
  | HeadObject string string
  | UploadFile string string string "(string \<times> string) list"
  | DownloadFile string string string
  | Copy string string string string

type_synonym s3_client = "s3_call list \<Rightarrow> s3_call \<Rightarrow> exn + response"

record post_copy_action =
  action :: string
  destination :: string
  pattern :: string
  sub :: string

record transfer_spec =
  bucket :: string
  directory :: string
  postCopyAction :: post_copy_action

record s3_transfer =
  spec :: transfer_spec
  bucket_owner_full_control :: bool
  s3_client :: s3_client

text \<open>The value stored for a key in the dictionary that \<open>list_files\<close> returns.\<close>

record remote_file =
  size_bytes :: int
  modified_time :: int

type_synonym remote_files = "(string \<times> remote_file) list"

text \<open>
  Python's \<open>re.match\<close> (as a truth value) and \<open>re.sub\<close> are parameters as well;
  either may raise on a pattern that does not compile.
\<close>

type_synonym re_match = "string \<Rightarrow> string \<Rightarrow> exn + bool"
type_synonym re_sub = "string \<Rightarrow> string \<Rightarrow> string \<Rightarrow> exn + string"

definition MAX_OBJECTS_PER_QUERY :: int where
  "MAX_OBJECTS_PER_QUERY = 100"

subsection \<open>Helpers\<close>

text \<open>\<open>s.split(c)\<close> for a one-character separator, and \<open>s.split('/')[-1]\<close>.\<close>

fun split_on :: "char \<Rightarrow> string \<Rightarrow> string list" where
  "split_on c [] = [[]]"
| "split_on c (x # xs) =
     (if x = c then [] # split_on c xs
      else (case split_on c xs of
              [] \<Rightarrow> [[x]]
            | w # ws \<Rightarrow> (x # w) # ws))"

definition basename :: "string \<Rightarrow> string" where
  "basename file = last (split_on CHR ''/'' file)"

text \<open>Issuing a call: the client answers from the log so far, and the call is logged.\<close>

definition call :: "s3_client \<Rightarrow> s3_call \<Rightarrow> s3_call list \<Rightarrow> (exn + response) \<times> s3_call list" where
  "call client c tr = (client tr c, tr @ [c])"

subsection \<open>handle_post_copy_action\<close>

text \<open>The body of the loop over the files for the actions move and rename.\<close>

fun move_or_rename ::
  "s3_transfer \<Rightarrow> re_sub \<Rightarrow> string list \<Rightarrow> s3_call list \<Rightarrow> (exn + unit) \<times> s3_call list" where
  "move_or_rename self re_sub [] tr = (Inr (), tr)"
| "move_or_rename self re_sub (file # files) tr =
     (let pca = postCopyAction (spec self) in
      case (if action pca = ''rename''
            then re_sub (pattern pca) (sub pca) (destination pca @ basename file)
            else Inr file) of
        Inl e \<Rightarrow> (Inl e, tr)
      | Inr new_file \<Rightarrow>
          (case call (s3_client self)
                  (CopyObject (bucket (spec self)) (bucket (spec self)) file
                     (destination pca @ ''/'' @ new_file)) tr of
             (Inl e, tr1) \<Rightarrow> (Inl e, tr1)
           | (Inr _, tr1) \<Rightarrow>
               (case call (s3_client self)
                       (DeleteObjects (bucket (spec self)) [file] True) tr1 of
                  (Inl e, tr2) \<Rightarrow> (Inl e, tr2)
                | (Inr _, tr2) \<Rightarrow> move_or_rename self re_sub files tr2)))"

definition handle_post_copy_action ::
  "s3_transfer \<Rightarrow> re_sub \<Rightarrow> string list \<Rightarrow> s3_call list \<Rightarrow> (exn + int) \<times> s3_call list" where
  "handle_post_copy_action self re_sub files tr =
     (let a = action (postCopyAction (spec self)) in
      case (if a = ''delete''
            then call (s3_client self) (DeleteObjects (bucket (spec self)) files True) tr
            else (Inr (OtherResponse []), tr)) of
        (Inl e, tr1) \<Rightarrow> (Inl e, tr1)
      | (Inr _, tr1) \<Rightarrow>
          (case (if a = ''move'' \<or> a = ''rename''
                 then move_or_rename self re_sub files tr1
                 else (Inr (), tr1)) of
             (Inl e, tr2) \<Rightarrow> (Inl e, tr2)
           | (Inr _, tr2) \<Rightarrow> (Inr 0, tr2)))"

subsection \<open>list_files\<close>

text \<open>
  The test \<open>file_pattern and not re.match(file_pattern, filename)\<close>: an absent or
  empty pattern is false in Python, and then \<open>re.match\<close> is not evaluated.
\<close>

definition filtered_out :: "re_match \<Rightarrow> string option \<Rightarrow> string \<Rightarrow> exn + bool" where
  "filtered_out re_match file_pattern filename =
     (case file_pattern of
        None \<Rightarrow> Inr False
      | Some p \<Rightarrow>
          if p = [] then Inr False
          else (case re_match p filename of
                  Inl e \<Rightarrow> Inl e
                | Inr m \<Rightarrow> Inr (\<not> m)))"

text \<open>The loop over the \<open>Contents\<close> of one page.\<close>

fun scan_contents ::
  "s3_transfer \<Rightarrow> re_match \<Rightarrow> string option \<Rightarrow> s3_object list \<Rightarrow> remote_files \<Rightarrow>
   s3_call list \<Rightarrow> (exn + remote_files) \<times> s3_call list" where
  "scan_contents self re_match file_pattern [] remote_files tr = (Inr remote_files, tr)"
| "scan_contents self re_match file_pattern (obj # objs) remote_files tr =
     (let key = Key obj; filename = basename key in
      case filtered_out re_match file_pattern filename of
        Inl e \<Rightarrow> (Inl e, tr)
      | Inr True \<Rightarrow> scan_contents self re_match file_pattern objs remote_files tr
      | Inr False \<Rightarrow>
          (case call (s3_client self) (HeadObject (bucket (spec self)) key) tr of
             (Inl e, tr1) \<Rightarrow> (Inl e, tr1)
           | (Inr (HeadResponse file_attr), tr1) \<Rightarrow>
               scan_contents self re_match file_pattern objs
                 (AList.update key
                    \<lparr>size_bytes = ContentLength file_attr,
                     modified_time = LastModified file_attr\<rparr> remote_files) tr1
           | (Inr _, tr1) \<Rightarrow> (Inl (KeyError ''ContentLength''), tr1)))"

text \<open>
  The \<open>while True\<close> loop. It need not terminate: a result \<open>None\<close> of the partial
  function stands for a loop that runs forever. A returned Python \<open>None\<close> is the inner
  \<open>None\<close>; a returned dictionary is \<open>Some\<close> of it.
\<close>

partial_function (option) list_loop ::
  "s3_transfer \<Rightarrow> re_match \<Rightarrow> string option \<Rightarrow> list_kwargs \<Rightarrow> remote_files \<Rightarrow>
   s3_call list \<Rightarrow> ((exn + remote_files option) \<times> s3_call list) option" where
  "list_loop self re_match file_pattern kwargs remote_files tr =
     (case call (s3_client self) (ListObjectsV2 kwargs) tr of
        (Inl e, tr1) \<Rightarrow> Some (Inl e, tr1)
      | (Inr (ListResponse response), tr1) \<Rightarrow>
          if KeyCount response \<noteq> 0 then
            (case scan_contents self re_match file_pattern (Contents response)
                    remote_files tr1 of
               (Inl e, tr2) \<Rightarrow> Some (Inl e, tr2)
             | (Inr remote_files2, tr2) \<Rightarrow>
                 (case NextContinuationToken response of
                    Some token \<Rightarrow>
                      list_loop self re_match file_pattern
                        (kwargs\<lparr>ContinuationToken := Some token\<rparr>) remote_files2 tr2
                  | None \<Rightarrow> Some (Inr (Some remote_files2), tr2)))
          else Some (Inr None, tr1)
      | (Inr _, tr1) \<Rightarrow> Some (Inl (KeyError ''KeyCount''), tr1))"

definition list_files ::
  "s3_transfer \<Rightarrow> re_match \<Rightarrow> string option \<Rightarrow> string option \<Rightarrow> s3_call list \<Rightarrow>
   ((exn + remote_files option) \<times> s3_call list) option" where
  "list_files self re_match dir file_pattern tr =
     list_loop self re_match file_pattern
       \<lparr>Bucket = bucket (spec self),
        MaxKeys = MAX_OBJECTS_PER_QUERY,
        Prefix = (case dir of None \<Rightarrow> None | Some d \<Rightarrow> if d = [] then None else Some d),
        ContinuationToken = None\<rparr>
       [] tr"

subsection \<open>The methods that are not implemented\<close>

definition move_files_to_final_location ::
  "s3_transfer \<Rightarrow> string list \<Rightarrow> s3_call list \<Rightarrow> (exn + unit) \<times> s3_call list" where
  "move_files_to_final_location self files tr = (Inl NotImplementedError, tr)"

definition pull_files ::
  "s3_transfer \<Rightarrow> string list \<Rightarrow> 'r \<Rightarrow> s3_call list \<Rightarrow> (exn + unit) \<times> s3_call list" where
  "pull_files self files remote_spec tr = (Inl NotImplementedError, tr)"

subsection \<open>push_files_from_worker\<close>

text \<open>
  The loop over the files that \<open>glob.glob\<close> found: an exception of \<open>upload_file\<close>
  is caught and sets the result to 1.
\<close>

fun push_loop ::
  "s3_transfer \<Rightarrow> (string \<times> string) list \<Rightarrow> string list \<Rightarrow> int \<Rightarrow> s3_call list \<Rightarrow>
   int \<times> s3_call list" where
  "push_loop self kwargs [] result tr = (result, tr)"
| "push_loop self kwargs (file # files) result tr =
     (let file_name = basename file in
      case call (s3_client self)
             (UploadFile file (bucket (spec self))
                (directory (spec self) @ ''/'' @ file_name) kwargs) tr of
        (Inl e, tr1) \<Rightarrow> push_loop self kwargs files 1 tr1
      | (Inr _, tr1) \<Rightarrow> push_loop self kwargs files result tr1)"

definition push_files_from_worker ::
  "s3_transfer \<Rightarrow> (string \<Rightarrow> string list) \<Rightarrow> string \<Rightarrow> s3_call list \<Rightarrow>
   (exn + int) \<times> s3_call list" where
  "push_files_from_worker self glob local_staging_directory tr =
     (let files = glob (local_staging_directory @ ''/*'');
          kwargs = (if bucket_owner_full_control self
                    then [(''ACL'', ''bucket-owner-full-control'')] else [])
      in case push_loop self kwargs files 0 tr of
           (result, tr1) \<Rightarrow> (Inr result, tr1))"

subsection \<open>pull_files_to_worker\<close>

fun pull_loop ::
  "s3_transfer \<Rightarrow> string \<Rightarrow> string list \<Rightarrow> int \<Rightarrow> s3_call list \<Rightarrow> int \<times> s3_call list" where
  "pull_loop self local_staging_directory [] result tr = (result, tr)"
| "pull_loop self local_staging_directory (file # files) result tr =
     (let file_name = basename file in
      case call (s3_client self)
             (DownloadFile (bucket (spec self)) file
                (local_staging_directory @ ''/'' @ file_name)) tr of
        (Inl e, tr1) \<Rightarrow> pull_loop self local_staging_directory files 1 tr1
      | (Inr _, tr1) \<Rightarrow> pull_loop self local_staging_directory files result tr1)"

definition pull_files_to_worker ::
  "s3_transfer \<Rightarrow> string list \<Rightarrow> string \<Rightarrow> s3_call list \<Rightarrow> (exn + int) \<times> s3_call list" where
  "pull_files_to_worker self files local_staging_directory tr =
     (case pull_loop self local_staging_directory files 0 tr of
        (result, tr1) \<Rightarrow> (Inr result, tr1))"

subsection \<open>transfer_files\<close>




subsection \<open>Notions used to state the properties\<close>

text \<open>The calls a run added to the log it started from.\<close>

definition issued :: "s3_call list \<Rightarrow> s3_call list \<Rightarrow> s3_call list" where
  "issued tr tr' = drop (length tr) tr'"


text \<open>A client none of whose calls raises, whatever was called before.\<close>

definition never_raises :: "s3_client \<Rightarrow> bool" where
  "never_raises client = (\<forall>tr c. \<not> isl (client tr c))"

text \<open>
  Whether the \<open>i\<close>-th of the calls \<open>cs\<close>, issued one after the other on top of
  the log \<open>tr\<close>, raises.
\<close>

definition raises_at :: "s3_client \<Rightarrow> s3_call list \<Rightarrow> s3_call list \<Rightarrow> nat \<Rightarrow> bool" where
  "raises_at client tr cs i = isl (client (tr @ take i cs) (cs ! i))"

text \<open>The objects of a page that the filter of \<open>list_files\<close> lets through.\<close>

definition passes :: "re_match \<Rightarrow> string option \<Rightarrow> s3_object \<Rightarrow> bool" where
  "passes re_match file_pattern obj =
     (filtered_out re_match file_pattern (basename (Key obj)) = Inr False)"

definition entry_of :: "head_response \<Rightarrow> remote_file" where
  "entry_of file_attr =
     \<lparr>size_bytes = ContentLength file_attr, modified_time = LastModified file_attr\<rparr>"

text \<open>
  A backend that serves a listing as the given pages: the request with the given
  arguments is answered by the first page, whatever was called before, and every page
  but the last reports a non-zero key count and carries the token that leads to the
  next page.
\<close>

fun paged :: "s3_client \<Rightarrow> list_kwargs \<Rightarrow> list_response list \<Rightarrow> bool" where
  "paged client kw [] = False"
| "paged client kw [p] = (\<forall>tr. client tr (ListObjectsV2 kw) = Inr (ListResponse p))"
| "paged client kw (p # q # ps) =
     ((\<forall>tr. client tr (ListObjectsV2 kw) = Inr (ListResponse p)) \<and>
      KeyCount p \<noteq> 0 \<and>
      (\<exists>token. NextContinuationToken p = Some token \<and>
         paged client (kw\<lparr>ContinuationToken := Some token\<rparr>) (q # ps)))"

text \<open>A backend whose \<open>head_object\<close> answers with the attributes \<open>attr\<close>.\<close>

definition heads :: "s3_client \<Rightarrow> string \<Rightarrow> (string \<Rightarrow> head_response) \<Rightarrow> bool" where
  "heads client b attr = (\<forall>tr k. client tr (HeadObject b k) = Inr (HeadResponse (attr k)))"

text \<open>The arguments of the first listing request.\<close>

definition first_kwargs :: "s3_transfer \<Rightarrow> string option \<Rightarrow> list_kwargs" where
  "first_kwargs self dir =
     \<lparr>Bucket = bucket (spec self),
      MaxKeys = 100,
      Prefix = (case dir of None \<Rightarrow> None | Some d \<Rightarrow> if d = [] then None else Some d),
      ContinuationToken = None\<rparr>"

subsection \<open>A fragment of Python's regular expressions\<close>

text \<open>
  The patterns made of an optional leading \<open>^\<close> and one or more characters that are
  not special in a regular expression, with a replacement free of backslashes. On this
  fragment \<open>re.match\<close> tests whether the string starts with the literal,
  \<open>re.fullmatch\<close> whether it is the literal, and \<open>re.sub\<close> replaces the literal
  at the start of the string (anchored) or each occurrence, left to right (not
  anchored). Other patterns are not modelled and are answered with \<open>ReError\<close>.
\<close>

definition re_special :: "char list" where
  "re_special = CHR 0x5C # ''.^$*+?{}[]|()''"

definition plain :: "string \<Rightarrow> bool" where
  "plain q = (q \<noteq> [] \<and> list_all (\<lambda>c. c \<notin> set re_special) q)"

definition anchored :: "string \<Rightarrow> bool" where
  "anchored p = (case p of [] \<Rightarrow> False | c # q \<Rightarrow> c = CHR ''^'')"

definition literal_of :: "string \<Rightarrow> string" where
  "literal_of p = (if anchored p then tl p else p)"

fun starts_with :: "string \<Rightarrow> string \<Rightarrow> bool" where
  "starts_with [] s = True"
| "starts_with (c # q) [] = False"
| "starts_with (c # q) (x # s) = (c = x \<and> starts_with q s)"

fun replace_lit :: "string \<Rightarrow> string \<Rightarrow> nat \<Rightarrow> string \<Rightarrow> string" where
  "replace_lit q r skip [] = []"
| "replace_lit q r skip (x # s) =
     (if 0 < skip then replace_lit q r (skip - 1) s
      else if starts_with q (x # s) then r @ replace_lit q r (length q - 1) s
      else x # replace_lit q r 0 s)"

definition py_re_match :: re_match where
  "py_re_match p s =
     (if plain (literal_of p) then Inr (starts_with (literal_of p) s)
      else Inl (ReError ''not modelled''))"

definition py_re_fullmatch :: re_match where
  "py_re_fullmatch p s =
     (if plain (literal_of p) then Inr (s = literal_of p)
      else Inl (ReError ''not modelled''))"

definition py_re_sub :: re_sub where
  "py_re_sub p r s =
     (if plain (literal_of p) \<and> CHR 0x5C \<notin> set r then
        Inr (if anchored p then
               (if starts_with (literal_of p) s then r @ drop (length (literal_of p)) s
                else s)
             else replace_lit (literal_of p) r 0 s)
      else Inl (ReError ''not modelled''))"

subsection \<open>Concrete backends and handlers\<close>

definition handler :: "string \<Rightarrow> string \<Rightarrow> post_copy_action \<Rightarrow> s3_client \<Rightarrow> s3_transfer" where
  "handler b d pca client =
     \<lparr>spec = \<lparr>bucket = b, directory = d, postCopyAction = pca\<rparr>,
      bucket_owner_full_control = True,
      s3_client = client\<rparr>"

definition no_action :: post_copy_action where
  "no_action = \<lparr>action = ''none'', destination = [], pattern = [], sub = []\<rparr>"

text \<open>A backend that completes every call, reporting the given errors in its response.\<close>

definition reporting_client :: "string list \<Rightarrow> s3_client" where
  "reporting_client errors tr c = Inr (OtherResponse errors)"


text \<open>A backend that raises on the upload of one local file and completes the others.\<close>

definition upload_fails_for :: "string \<Rightarrow> s3_client" where
  "upload_fails_for bad tr c =
     (case c of
        UploadFile f b k x \<Rightarrow>
          if f = bad then Inl (ClientError ''upload failed'') else Inr (OtherResponse [])
      | _ \<Rightarrow> Inr (OtherResponse []))"

text \<open>
  A backend that serves a listing from a first page and the pages reached by the given
  tokens, and answers \<open>head_object\<close> from \<open>attr\<close>.
\<close>

definition paged_client ::
  "list_response \<Rightarrow> (string \<times> list_response) list \<Rightarrow> (string \<Rightarrow> head_response) \<Rightarrow> s3_client" where
  "paged_client first later attr tr c =
     (case c of
        ListObjectsV2 kw \<Rightarrow>
          (case ContinuationToken kw of
             None \<Rightarrow> Inr (ListResponse first)
           | Some token \<Rightarrow>
               (case map_of later token of
                  Some p \<Rightarrow> Inr (ListResponse p)
                | None \<Rightarrow> Inl (ClientError ''InvalidArgument'')))
      | HeadObject b k \<Rightarrow> Inr (HeadResponse (attr k))
      | _ \<Rightarrow> Inr (OtherResponse []))"

definition page :: "string list \<Rightarrow> string option \<Rightarrow> list_response" where
  "page keys token =
     \<lparr>KeyCount = int (length keys),
      Contents = map (\<lambda>k. \<lparr>Key = k\<rparr>) keys,
      NextContinuationToken = token\<rparr>"

definition length_attr :: "string \<Rightarrow> head_response" where
  "length_attr k = \<lparr>ContentLength = int (length k), LastModified = 1700000000\<rparr>"

text \<open>The upload that \<open>push_files_from_worker\<close> requests for each local file.\<close>

definition upload_calls :: "s3_transfer \<Rightarrow> string list \<Rightarrow> s3_call list" where
  "upload_calls self files =
     map (\<lambda>file. UploadFile file (bucket (spec self))
                  (directory (spec self) @ ''/'' @ basename file)
                  (if bucket_owner_full_control self
                   then [(''ACL'', ''bucket-owner-full-control'')] else []))
       files"


text \<open>A staging directory with five files.\<close>

definition staging_glob :: "string \<Rightarrow> string list" where
  "staging_glob p =
     (if p = ''/staging/*''
      then [''/staging/f1'', ''/staging/f2'', ''/staging/f3'', ''/staging/f4'', ''/staging/f5'']
      else [])"

text \<open>
  The new name that the loop of \<open>handle_post_copy_action\<close> computes for a key, and the
  two calls it issues for it.
\<close>

definition new_file_of :: "s3_transfer \<Rightarrow> re_sub \<Rightarrow> string \<Rightarrow> exn + string" where
  "new_file_of self re_sub file =
     (if action (postCopyAction (spec self)) = ''rename''
      then re_sub (pattern (postCopyAction (spec self))) (sub (postCopyAction (spec self)))
             (destination (postCopyAction (spec self)) @ basename file)
      else Inr file)"

definition disposition_calls :: "s3_transfer \<Rightarrow> re_sub \<Rightarrow> string \<Rightarrow> s3_call list" where
  "disposition_calls self re_sub file =
     (case new_file_of self re_sub file of
        Inl e \<Rightarrow> []
      | Inr new_file \<Rightarrow>
          [CopyObject (bucket (spec self)) (bucket (spec self)) file
             (destination (postCopyAction (spec self)) @ ''/'' @ new_file),
           DeleteObjects (bucket (spec self)) [file] True])"

definition move_to :: "string \<Rightarrow> post_copy_action" where
  "move_to d = \<lparr>action = ''move'', destination = d, pattern = [], sub = []\<rparr>"

definition rename_to :: "string \<Rightarrow> string \<Rightarrow> string \<Rightarrow> post_copy_action" where
  "rename_to d p r = \<lparr>action = ''rename'', destination = d, pattern = p, sub = r\<rparr>"

text \<open>The arguments of the listing requests in a log.\<close>

fun list_requests :: "s3_call list \<Rightarrow> list_kwargs list" where
  "list_requests [] = []"
| "list_requests (ListObjectsV2 kw # cs) = kw # list_requests cs"
| "list_requests (c # cs) = list_requests cs"

text \<open>
  What \<open>list_files\<close> stores for an object that passes the filter, and the
  \<open>head_object\<close> calls for a list of objects.
\<close>

definition store :: "(string \<Rightarrow> head_response) \<Rightarrow> s3_object \<Rightarrow> remote_files \<Rightarrow> remote_files" where
  "store attr obj = AList.update (Key obj) (entry_of (attr (Key obj)))"

definition head_calls :: "string \<Rightarrow> s3_object list \<Rightarrow> s3_call list" where
  "head_calls b objs = map (\<lambda>obj. HeadObject b (Key obj)) objs"

text \<open>
  The log expected of a listing that is served as the given pages: one request per
  page, followed by the \<open>head_object\<close> calls for the objects of the page that are
  kept, up to a page that reports a key count of zero.
\<close>

fun listing_log ::
  "string \<Rightarrow> (s3_object \<Rightarrow> bool) \<Rightarrow> list_kwargs \<Rightarrow> list_response list \<Rightarrow> s3_call list" where
  "listing_log b keep kw [] = []"
| "listing_log b keep kw (p # ps) =
     ListObjectsV2 kw #
     (if KeyCount p = 0 then []
      else head_calls b (filter keep (Contents p)) @
           listing_log b keep (kw\<lparr>ContinuationToken := NextContinuationToken p\<rparr>) ps)"

text \<open>A pattern on which \<open>re.match\<close> does not raise, whatever the name.\<close>

definition total_filter :: "re_match \<Rightarrow> string option \<Rightarrow> bool" where
  "total_filter re_match file_pattern = (\<forall>s. \<not> isl (filtered_out re_match file_pattern s))"

text \<open>Keys for a listing of many objects, and a handler over a paged backend.\<close>

definition numbered_keys :: "nat \<Rightarrow> nat \<Rightarrow> string list" where
  "numbered_keys i j = map (\<lambda>n. ''data/k'' @ replicate n CHR ''x'') [i..<j]"

definition listing_handler :: "list_response \<Rightarrow> (string \<times> list_response) list \<Rightarrow> s3_transfer" where
  "listing_handler first later =
     handler ''bkt'' ''in'' no_action (paged_client first later length_attr)"

section \<open>Properties\<close>

subsection \<open>Helper lemmas\<close>

lemma split_on_not_Nil [simp]: "split_on c s \<noteq> []"
  by (induction s) (auto split: list.splits)

lemma split_on_no_sep: "c \<notin> set s \<Longrightarrow> split_on c s = [s]"
  by (induction s) auto

lemma basename_no_sep: "CHR ''/'' \<notin> set file \<Longrightarrow> basename file = file"
  by (simp add: basename_def split_on_no_sep)

lemma raises_at_0: "raises_at client tr (c # cs) 0 = isl (client tr c)"
  by (simp add: raises_at_def)

lemma raises_at_Suc: "raises_at client tr (c # cs) (Suc i) = raises_at client (tr @ [c]) cs i"
  by (simp add: raises_at_def)

lemma ex_raises_at_Cons:
  "(\<exists>i<Suc n. raises_at client tr (c # cs) i) =
     (isl (client tr c) \<or> (\<exists>i<n. raises_at client (tr @ [c]) cs i))"
  unfolding raises_at_Suc [symmetric] raises_at_0 [symmetric, of client tr c cs]
  by (auto simp: less_Suc_eq_0_disj)

lemma push_loop_eq:
  "push_loop self kw files r tr =
     (if \<exists>i<length files. raises_at (s3_client self) tr
            (map (\<lambda>f. UploadFile f (bucket (spec self)) (directory (spec self) @ ''/'' @ basename f) kw) files) i
      then 1 else r,
      tr @ map (\<lambda>f. UploadFile f (bucket (spec self)) (directory (spec self) @ ''/'' @ basename f) kw) files)"
proof (induction files arbitrary: r tr)
  case Nil
  then show ?case by simp
next
  case (Cons f fs)
  let ?c = "\<lambda>f. UploadFile f (bucket (spec self)) (directory (spec self) @ ''/'' @ basename f) kw"
  show ?case
    unfolding list.map length_Cons ex_raises_at_Cons
    by (cases "s3_client self tr (?c f)") (simp_all add: call_def Let_def Cons.IH)
qed


lemma push_files_from_worker_eq:
  "push_files_from_worker self glob d tr =
     (Inr (if \<exists>i<length (glob (d @ ''/*'')).
                raises_at (s3_client self) tr (upload_calls self (glob (d @ ''/*''))) i
           then 1 else 0),
      tr @ upload_calls self (glob (d @ ''/*'')))"
  by (simp add: push_files_from_worker_def push_loop_eq upload_calls_def Let_def)

lemma never_raises_call:
  assumes "never_raises client"
  shows "\<exists>r. call client c tr = (Inr r, tr @ [c])"
proof -
  from assms have "\<not> isl (client tr c)"
    by (simp add: never_raises_def)
  then obtain r where "client tr c = Inr r"
    by (cases "client tr c") auto
  then show ?thesis
    by (simp add: call_def)
qed

lemma move_or_rename_ok:
  "never_raises (s3_client self) \<Longrightarrow>
   \<forall>file\<in>set files. \<not> isl (new_file_of self re_sub file) \<Longrightarrow>
   move_or_rename self re_sub files tr =
     (Inr (), tr @ concat (map (disposition_calls self re_sub) files))"
proof (induction files arbitrary: tr)
  case Nil
  then show ?case by simp
next
  case (Cons f fs)
  from Cons.prems obtain n where n: "new_file_of self re_sub f = Inr n"
    by (cases "new_file_of self re_sub f") auto
  let ?c = "CopyObject (bucket (spec self)) (bucket (spec self)) f
              (destination (postCopyAction (spec self)) @ ''/'' @ n)"
  let ?d = "DeleteObjects (bucket (spec self)) [f] True"
  from Cons.prems(1) obtain r1 where c: "call (s3_client self) ?c tr = (Inr r1, tr @ [?c])"
    using never_raises_call by blast
  from Cons.prems(1) obtain r2 where d: "call (s3_client self) ?d (tr @ [?c]) = (Inr r2, (tr @ [?c]) @ [?d])"
    using never_raises_call by blast
  have rest: "move_or_rename self re_sub fs ((tr @ [?c]) @ [?d]) =
      (Inr (), ((tr @ [?c]) @ [?d]) @ concat (map (disposition_calls self re_sub) fs))"
    using Cons.IH Cons.prems by simp
  have n': "(if action (postCopyAction (spec self)) = ''rename''
      then re_sub (pattern (postCopyAction (spec self))) (sub (postCopyAction (spec self)))
             (destination (postCopyAction (spec self)) @ basename f)
      else Inr f) = Inr n"
    using n by (simp add: new_file_of_def)
  have dc: "disposition_calls self re_sub f = [?c, ?d]"
    by (simp add: disposition_calls_def n)
  show ?case
    unfolding move_or_rename.simps Let_def n'
    using c d rest by (simp add: dc)
qed

lemma handle_post_copy_action_ok:
  assumes "never_raises (s3_client self)"
    and "\<forall>file\<in>set files. \<not> isl (new_file_of self re_sub file)"
  shows "handle_post_copy_action self re_sub files tr =
     (Inr 0,
      tr @ (if action (postCopyAction (spec self)) = ''delete''
            then [DeleteObjects (bucket (spec self)) files True]
            else if action (postCopyAction (spec self)) = ''move'' \<or>
                    action (postCopyAction (spec self)) = ''rename''
            then concat (map (disposition_calls self re_sub) files)
            else []))"
proof -
  obtain r where d: "call (s3_client self) (DeleteObjects (bucket (spec self)) files True) tr
      = (Inr r, tr @ [DeleteObjects (bucket (spec self)) files True])"
    using assms(1) never_raises_call by blast
  show ?thesis
    unfolding handle_post_copy_action_def Let_def
    using d by (simp add: move_or_rename_ok [OF assms])
qed

subsection \<open>The methods that are not implemented\<close>

text \<open>
  Claim C10. \<open>pull_files\<close> raises \<open>NotImplementedError\<close> for all arguments and
  issues no backend call (the call log is returned as it was), and so does
  \<open>move_files_to_final_location\<close>.
\<close>

theorem pull_files_not_implemented:
  "pull_files self files remote_spec tr = (Inl NotImplementedError, tr) \<and>
   move_files_to_final_location self files tr = (Inl NotImplementedError, tr)"
  by (simp add: pull_files_def move_files_to_final_location_def)

subsection \<open>Uploads\<close>

text \<open>
  Claim C6. \<open>push_files_from_worker\<close> requests one upload for every file of the
  staging directory, in order, whether or not earlier uploads raised, and returns 1 if
  some upload raised and 0 otherwise. In particular, in a batch of five files of which
  only the third upload raises, the status is 1 and all five uploads are requested.
\<close>

theorem push_files_from_worker_no_abort:
  "push_files_from_worker self glob d tr =
     (Inr (if \<exists>i<length (glob (d @ ''/*'')).
                raises_at (s3_client self) tr (upload_calls self (glob (d @ ''/*''))) i
           then 1 else 0),
      tr @ upload_calls self (glob (d @ ''/*'')))
   \<and> (length (glob (d @ ''/*'')) = 5 \<and>
      (\<forall>i<5. raises_at (s3_client self) tr (upload_calls self (glob (d @ ''/*''))) i = (i = 2))
      \<longrightarrow> fst (push_files_from_worker self glob d tr) = Inr 1 \<and>
          (\<forall>i<5. upload_calls self (glob (d @ ''/*'')) ! i
                    \<in> set (issued tr (snd (push_files_from_worker self glob d tr)))))"
proof (intro conjI impI)
  show "push_files_from_worker self glob d tr =
     (Inr (if \<exists>i<length (glob (d @ ''/*'')).
                raises_at (s3_client self) tr (upload_calls self (glob (d @ ''/*''))) i
           then 1 else 0),
      tr @ upload_calls self (glob (d @ ''/*'')))"
    by (rule push_files_from_worker_eq)
next
  assume h: "length (glob (d @ ''/*'')) = 5 \<and>
      (\<forall>i<5. raises_at (s3_client self) tr (upload_calls self (glob (d @ ''/*''))) i = (i = 2))"
  then have "\<exists>i<length (glob (d @ ''/*'')).
                raises_at (s3_client self) tr (upload_calls self (glob (d @ ''/*''))) i"
    by (intro exI [of _ 2]) simp
  then show "fst (push_files_from_worker self glob d tr) = Inr 1"
    by (simp add: push_files_from_worker_eq)
next
  assume h: "length (glob (d @ ''/*'')) = 5 \<and>
      (\<forall>i<5. raises_at (s3_client self) tr (upload_calls self (glob (d @ ''/*''))) i = (i = 2))"
  then have "length (upload_calls self (glob (d @ ''/*''))) = 5"
    by (simp add: upload_calls_def)
  then show "\<forall>i<5. upload_calls self (glob (d @ ''/*'')) ! i
                    \<in> set (issued tr (snd (push_files_from_worker self glob d tr)))"
    by (simp add: push_files_from_worker_eq issued_def)
qed

text \<open>
  Five staged files, the upload of the third of which fails: the status is 1 and the
  five uploads are in the log.
\<close>

theorem push_files_from_worker_no_abort_witness:
  "length (staging_glob (''/staging'' @ ''/*'')) = 5 \<and>
   \<not> raises_at (upload_fails_for ''/staging/f3'') []
       (upload_calls (handler ''bkt'' ''in'' no_action (upload_fails_for ''/staging/f3''))
          (staging_glob (''/staging'' @ ''/*''))) 0 \<and>
   \<not> raises_at (upload_fails_for ''/staging/f3'') []
       (upload_calls (handler ''bkt'' ''in'' no_action (upload_fails_for ''/staging/f3''))
          (staging_glob (''/staging'' @ ''/*''))) 1 \<and>
   raises_at (upload_fails_for ''/staging/f3'') []
       (upload_calls (handler ''bkt'' ''in'' no_action (upload_fails_for ''/staging/f3''))
          (staging_glob (''/staging'' @ ''/*''))) 2 \<and>
   \<not> raises_at (upload_fails_for ''/staging/f3'') []
       (upload_calls (handler ''bkt'' ''in'' no_action (upload_fails_for ''/staging/f3''))
          (staging_glob (''/staging'' @ ''/*''))) 3 \<and>
   \<not> raises_at (upload_fails_for ''/staging/f3'') []
       (upload_calls (handler ''bkt'' ''in'' no_action (upload_fails_for ''/staging/f3''))
          (staging_glob (''/staging'' @ ''/*''))) 4 \<and>
   fst (push_files_from_worker (handler ''bkt'' ''in'' no_action (upload_fails_for ''/staging/f3''))
     staging_glob ''/staging'' []) = Inr 1 \<and>
   snd (push_files_from_worker (handler ''bkt'' ''in'' no_action (upload_fails_for ''/staging/f3''))
     staging_glob ''/staging'' []) =
      [UploadFile ''/staging/f1'' ''bkt'' ''in/f1'' [(''ACL'', ''bucket-owner-full-control'')],
       UploadFile ''/staging/f2'' ''bkt'' ''in/f2'' [(''ACL'', ''bucket-owner-full-control'')],
       UploadFile ''/staging/f3'' ''bkt'' ''in/f3'' [(''ACL'', ''bucket-owner-full-control'')],
       UploadFile ''/staging/f4'' ''bkt'' ''in/f4'' [(''ACL'', ''bucket-owner-full-control'')],
       UploadFile ''/staging/f5'' ''bkt'' ''in/f5'' [(''ACL'', ''bucket-owner-full-control'')]]"
proof -
  let ?c = "upload_fails_for ''/staging/f3''"
  let ?h = "handler ''bkt'' ''in'' no_action ?c"
  let ?fs = "staging_glob (''/staging'' @ ''/*'')"
  have len: "length ?fs = 5"
    by (simp add: staging_glob_def)
  have calls: "upload_calls ?h ?fs =
      [UploadFile ''/staging/f1'' ''bkt'' ''in/f1'' [(''ACL'', ''bucket-owner-full-control'')],
       UploadFile ''/staging/f2'' ''bkt'' ''in/f2'' [(''ACL'', ''bucket-owner-full-control'')],
       UploadFile ''/staging/f3'' ''bkt'' ''in/f3'' [(''ACL'', ''bucket-owner-full-control'')],
       UploadFile ''/staging/f4'' ''bkt'' ''in/f4'' [(''ACL'', ''bucket-owner-full-control'')],
       UploadFile ''/staging/f5'' ''bkt'' ''in/f5'' [(''ACL'', ''bucket-owner-full-control'')]]"
    by (simp add: staging_glob_def upload_calls_def handler_def basename_def)
  have each: "\<not> raises_at ?c [] (upload_calls ?h ?fs) 0"
    "\<not> raises_at ?c [] (upload_calls ?h ?fs) 1"
    "raises_at ?c [] (upload_calls ?h ?fs) 2"
    "\<not> raises_at ?c [] (upload_calls ?h ?fs) 3"
    "\<not> raises_at ?c [] (upload_calls ?h ?fs) 4"
    unfolding calls by (simp_all add: raises_at_def upload_fails_for_def)
  have five: "(\<forall>i<5. P i) = (P 0 \<and> P 1 \<and> P 2 \<and> P 3 \<and> P (4::nat))" for P
    by (simp add: eval_nat_numeral less_Suc_eq) blast
  have cl: "s3_client ?h = ?c"
    by (simp add: handler_def)
  have only3: "\<forall>i<5. raises_at (s3_client ?h) [] (upload_calls ?h ?fs) i = (i = 2)"
    unfolding five cl using each by simp
  note inst = push_files_from_worker_no_abort [of ?h staging_glob "''/staging''" "[]"]
  from inst len only3
  have r: "fst (push_files_from_worker ?h staging_glob ''/staging'' []) = Inr 1"
    by blast
  have "snd (push_files_from_worker ?h staging_glob ''/staging'' []) = [] @ upload_calls ?h ?fs"
    by (subst inst [THEN conjunct1]) (rule snd_conv)
  then have l: "snd (push_files_from_worker ?h staging_glob ''/staging'' []) = upload_calls ?h ?fs"
    by (simp only: append_Nil)
  show ?thesis
    unfolding l calls [symmetric] using len each r by blast
qed

subsection \<open>Store-to-store copies\<close>


subsection \<open>Dispositions\<close>




text \<open>
  A move of the key \<open>incoming/report.csv\<close> to \<open>archive\<close>: the copy goes to
  \<open>archive/incoming/report.csv\<close>, not to the prefix followed by the base name.
\<close>

theorem move_keeps_whole_key_counterexample:
  "handle_post_copy_action (handler ''bkt'' ''in'' (move_to ''archive'') (reporting_client []))
     py_re_sub [''incoming/report.csv''] [] =
     (Inr 0,
      [CopyObject ''bkt'' ''bkt'' ''incoming/report.csv'' ''archive/incoming/report.csv'',
       DeleteObjects ''bkt'' [''incoming/report.csv''] True]) \<and>
   ''archive'' @ ''/'' @ basename ''incoming/report.csv'' = ''archive/report.csv''"
  by (simp add: handle_post_copy_action_def handler_def move_to_def reporting_client_def
      call_def basename_def)

text \<open>
  Claim C2, amended. For every key of the input, in order, the move disposition copies
  the object, within the bucket of the source, to the key formed of the destination
  prefix, a \<open>/\<close> and the original key as a whole, and then deletes the original key,
  provided no backend call raises. The original key is its own base name when it
  contains no \<open>/\<close>.
\<close>

theorem move_copies_then_deletes_each_key:
  assumes "action (postCopyAction (spec self)) = ''move''"
    and "never_raises (s3_client self)"
  shows "handle_post_copy_action self re_sub files tr =
     (Inr 0,
      tr @ concat (map (\<lambda>file.
             [CopyObject (bucket (spec self)) (bucket (spec self)) file
                (destination (postCopyAction (spec self)) @ ''/'' @ file),
              DeleteObjects (bucket (spec self)) [file] True]) files)) \<and>
     (\<forall>file\<in>set files. CHR ''/'' \<notin> set file \<longrightarrow> basename file = file)"
proof -
  have nf: "new_file_of self re_sub f = Inr f" for f
    using assms(1) by (simp add: new_file_of_def)
  have dc: "disposition_calls self re_sub = (\<lambda>file.
             [CopyObject (bucket (spec self)) (bucket (spec self)) file
                (destination (postCopyAction (spec self)) @ ''/'' @ file),
              DeleteObjects (bucket (spec self)) [file] True])"
    by (rule ext) (simp add: disposition_calls_def nf)
  have "\<forall>file\<in>set files. \<not> isl (new_file_of self re_sub file)"
    by (simp add: nf)
  from handle_post_copy_action_ok [OF assms(2) this, of tr] assms(1)
  show ?thesis
    by (simp add: dc basename_no_sep)
qed

theorem move_copies_then_deletes_each_key_witness:
  "action (postCopyAction (spec (handler ''bkt'' ''in'' (move_to ''archive'') (reporting_client [])))) = ''move'' \<and>
   never_raises (s3_client (handler ''bkt'' ''in'' (move_to ''archive'') (reporting_client []))) \<and>
   handle_post_copy_action (handler ''bkt'' ''in'' (move_to ''archive'') (reporting_client []))
     py_re_sub [''incoming/report.csv'', ''notes.txt''] [] =
     (Inr 0,
      [CopyObject ''bkt'' ''bkt'' ''incoming/report.csv'' ''archive/incoming/report.csv'',
       DeleteObjects ''bkt'' [''incoming/report.csv''] True,
       CopyObject ''bkt'' ''bkt'' ''notes.txt'' ''archive/notes.txt'',
       DeleteObjects ''bkt'' [''notes.txt''] True]) \<and>
   basename ''notes.txt'' = ''notes.txt''"
proof -
  let ?h = "handler ''bkt'' ''in'' (move_to ''archive'') (reporting_client [])"
  have a: "action (postCopyAction (spec ?h)) = ''move''"
    by (simp add: handler_def move_to_def)
  have b: "never_raises (s3_client ?h)"
    by (simp add: never_raises_def handler_def reporting_client_def)
  note inst = move_copies_then_deletes_each_key
                [OF a b, of py_re_sub "[''incoming/report.csv'', ''notes.txt'']" "[]"]
  have c: "handle_post_copy_action ?h py_re_sub [''incoming/report.csv'', ''notes.txt''] [] =
     (Inr 0,
      [CopyObject ''bkt'' ''bkt'' ''incoming/report.csv'' ''archive/incoming/report.csv'',
       DeleteObjects ''bkt'' [''incoming/report.csv''] True,
       CopyObject ''bkt'' ''bkt'' ''notes.txt'' ''archive/notes.txt'',
       DeleteObjects ''bkt'' [''notes.txt''] True])"
    by (subst inst [THEN conjunct1]) (simp add: handler_def move_to_def)
  have d: "basename ''notes.txt'' = ''notes.txt''"
    using inst [THEN conjunct2] by simp
  from a b c d show ?thesis by blast
qed

text \<open>
  The move of the keys \<open>a\<close> and \<open>b\<close>: the delete of \<open>a\<close> is requested before
  the copy of \<open>b\<close>, so the log is not two copies followed by two deletes.
\<close>

theorem move_a_b_interleaved_counterexample:
  "snd (handle_post_copy_action (handler ''bkt'' ''in'' (move_to ''archive'') (reporting_client []))
          py_re_sub [''a'', ''b''] []) =
     [CopyObject ''bkt'' ''bkt'' ''a'' ''archive/a'', DeleteObjects ''bkt'' [''a''] True,
      CopyObject ''bkt'' ''bkt'' ''b'' ''archive/b'', DeleteObjects ''bkt'' [''b''] True] \<and>
   snd (handle_post_copy_action (handler ''bkt'' ''in'' (move_to ''archive'') (reporting_client []))
          py_re_sub [''a'', ''b''] []) \<noteq>
     [CopyObject ''bkt'' ''bkt'' ''a'' ''archive/a'', CopyObject ''bkt'' ''bkt'' ''b'' ''archive/b'',
      DeleteObjects ''bkt'' [''a''] True, DeleteObjects ''bkt'' [''b''] True]"
  by (simp add: handle_post_copy_action_def handler_def move_to_def reporting_client_def call_def)

text \<open>
  Claim C8, amended. For a move of the keys \<open>a\<close> and \<open>b\<close> to \<open>archive\<close>, the
  backend calls are, in this order, the copy of \<open>a\<close>, the delete of \<open>a\<close>, the copy
  of \<open>b\<close> and the delete of \<open>b\<close>: two copies and two deletes, each copy directly
  before the delete of the same key, provided no backend call raises.
\<close>

theorem move_a_b_call_sequence:
  assumes "action (postCopyAction (spec self)) = ''move''"
    and "destination (postCopyAction (spec self)) = ''archive''"
    and "never_raises (s3_client self)"
  shows "handle_post_copy_action self re_sub [''a'', ''b''] tr =
     (Inr 0,
      tr @ [CopyObject (bucket (spec self)) (bucket (spec self)) ''a'' ''archive/a'',
            DeleteObjects (bucket (spec self)) [''a''] True,
            CopyObject (bucket (spec self)) (bucket (spec self)) ''b'' ''archive/b'',
            DeleteObjects (bucket (spec self)) [''b''] True])"
proof -
  have nf: "new_file_of self re_sub f = Inr f" for f
    using assms(1) by (simp add: new_file_of_def)
  have "\<forall>file\<in>set [''a'', ''b'']. \<not> isl (new_file_of self re_sub file)"
    by (simp add: nf)
  from handle_post_copy_action_ok [OF assms(3) this, of tr] assms(1,2)
  show ?thesis
    by (simp add: disposition_calls_def nf)
qed

theorem move_a_b_call_sequence_witness:
  "action (postCopyAction (spec (handler ''bkt'' ''in'' (move_to ''archive'') (reporting_client [])))) = ''move'' \<and>
   destination (postCopyAction (spec (handler ''bkt'' ''in'' (move_to ''archive'') (reporting_client [])))) = ''archive'' \<and>
   never_raises (s3_client (handler ''bkt'' ''in'' (move_to ''archive'') (reporting_client []))) \<and>
   handle_post_copy_action (handler ''bkt'' ''in'' (move_to ''archive'') (reporting_client []))
     py_re_sub [''a'', ''b''] [] =
     (Inr 0,
      [CopyObject ''bkt'' ''bkt'' ''a'' ''archive/a'', DeleteObjects ''bkt'' [''a''] True,
       CopyObject ''bkt'' ''bkt'' ''b'' ''archive/b'', DeleteObjects ''bkt'' [''b''] True])"
proof -
  let ?h = "handler ''bkt'' ''in'' (move_to ''archive'') (reporting_client [])"
  have a: "action (postCopyAction (spec ?h)) = ''move''"
    by (simp add: handler_def move_to_def)
  have a': "destination (postCopyAction (spec ?h)) = ''archive''"
    by (simp add: handler_def move_to_def)
  have b: "never_raises (s3_client ?h)"
    by (simp add: never_raises_def handler_def reporting_client_def)
  have c: "handle_post_copy_action ?h py_re_sub [''a'', ''b''] [] =
     (Inr 0,
      [CopyObject ''bkt'' ''bkt'' ''a'' ''archive/a'', DeleteObjects ''bkt'' [''a''] True,
       CopyObject ''bkt'' ''bkt'' ''b'' ''archive/b'', DeleteObjects ''bkt'' [''b''] True])"
    by (subst move_a_b_call_sequence [OF a a' b]) (simp add: handler_def)
  from a a' b c show ?thesis by blast
qed

text \<open>
  The rename of \<open>incoming/tmp_report.csv\<close> with pattern \<open>^tmp_\<close>, replacement
  \<open>done_\<close> and destination \<open>archive/\<close>: the key of the copy is not
  \<open>archive/done_report.csv\<close>.
\<close>

theorem rename_tmp_report_counterexample:
  "handle_post_copy_action
     (handler ''bkt'' ''in'' (rename_to ''archive/'' ''^tmp_'' ''done_'') (reporting_client []))
     py_re_sub [''incoming/tmp_report.csv''] [] =
     (Inr 0,
      [CopyObject ''bkt'' ''bkt'' ''incoming/tmp_report.csv'' ''archive//archive/tmp_report.csv'',
       DeleteObjects ''bkt'' [''incoming/tmp_report.csv''] True]) \<and>
   ''archive//archive/tmp_report.csv'' \<noteq> ''archive/done_report.csv''"
  by (simp add: handle_post_copy_action_def handler_def rename_to_def reporting_client_def
      call_def basename_def py_re_sub_def literal_of_def anchored_def plain_def re_special_def)

text \<open>
  Claim C1, amended. For the rename disposition with pattern \<open>^tmp_\<close>, replacement
  \<open>done_\<close> and destination prefix \<open>archive/\<close>, applied to the key
  \<open>incoming/tmp_report.csv\<close>, the substitution is applied to
  \<open>archive/tmp_report.csv\<close> (the prefix followed by the base name), which the anchored
  pattern does not match, so the name stays as it is; one copy is requested, whose
  destination key ends in \<open>archive/tmp_report.csv\<close>, and then the original key is
  deleted, provided no backend call raises.
\<close>

theorem rename_tmp_report:
  assumes "postCopyAction (spec self) = rename_to ''archive/'' ''^tmp_'' ''done_''"
    and "never_raises (s3_client self)"
  shows "py_re_sub ''^tmp_'' ''done_'' (''archive/'' @ basename ''incoming/tmp_report.csv'')
           = Inr ''archive/tmp_report.csv'' \<and>
     (\<exists>prefix. handle_post_copy_action self py_re_sub [''incoming/tmp_report.csv''] tr =
        (Inr 0,
         tr @ [CopyObject (bucket (spec self)) (bucket (spec self)) ''incoming/tmp_report.csv''
                 (prefix @ ''archive/tmp_report.csv''),
               DeleteObjects (bucket (spec self)) [''incoming/tmp_report.csv''] True]))"
proof -
  have s: "py_re_sub ''^tmp_'' ''done_'' (''archive/'' @ basename ''incoming/tmp_report.csv'')
           = Inr ''archive/tmp_report.csv''"
    by (simp add: basename_def py_re_sub_def literal_of_def anchored_def plain_def re_special_def)
  have nf: "new_file_of self py_re_sub ''incoming/tmp_report.csv'' = Inr ''archive/tmp_report.csv''"
    using s by (simp add: new_file_of_def assms(1) rename_to_def)
  have "\<forall>file\<in>set [''incoming/tmp_report.csv'']. \<not> isl (new_file_of self py_re_sub file)"
    by (simp add: nf)
  from handle_post_copy_action_ok [OF assms(2) this, of tr]
  have "handle_post_copy_action self py_re_sub [''incoming/tmp_report.csv''] tr =
        (Inr 0,
         tr @ [CopyObject (bucket (spec self)) (bucket (spec self)) ''incoming/tmp_report.csv''
                 (''archive//'' @ ''archive/tmp_report.csv''),
               DeleteObjects (bucket (spec self)) [''incoming/tmp_report.csv''] True])"
    by (simp add: disposition_calls_def nf assms(1) rename_to_def)
  then show ?thesis
    using s by blast
qed

theorem rename_tmp_report_witness:
  "postCopyAction (spec (handler ''bkt'' ''in'' (rename_to ''archive/'' ''^tmp_'' ''done_'')
      (reporting_client []))) = rename_to ''archive/'' ''^tmp_'' ''done_'' \<and>
   never_raises (s3_client (handler ''bkt'' ''in'' (rename_to ''archive/'' ''^tmp_'' ''done_'')
      (reporting_client []))) \<and>
   (\<exists>prefix. handle_post_copy_action (handler ''bkt'' ''in'' (rename_to ''archive/'' ''^tmp_'' ''done_'')
      (reporting_client [])) py_re_sub [''incoming/tmp_report.csv''] [] =
        (Inr 0,
         [CopyObject ''bkt'' ''bkt'' ''incoming/tmp_report.csv'' (prefix @ ''archive/tmp_report.csv''),
          DeleteObjects ''bkt'' [''incoming/tmp_report.csv''] True]))"
proof -
  let ?h = "handler ''bkt'' ''in'' (rename_to ''archive/'' ''^tmp_'' ''done_'') (reporting_client [])"
  have a: "postCopyAction (spec ?h) = rename_to ''archive/'' ''^tmp_'' ''done_''"
    by (simp add: handler_def)
  have b: "never_raises (s3_client ?h)"
    by (simp add: never_raises_def handler_def reporting_client_def)
  have bk: "bucket (spec ?h) = ''bkt''"
    by (simp add: handler_def)
  from rename_tmp_report [OF a b, of "[]"]
  have "\<exists>prefix. handle_post_copy_action ?h py_re_sub [''incoming/tmp_report.csv''] [] =
        (Inr 0,
         [CopyObject ''bkt'' ''bkt'' ''incoming/tmp_report.csv'' (prefix @ ''archive/tmp_report.csv''),
          DeleteObjects ''bkt'' [''incoming/tmp_report.csv''] True])"
    unfolding bk append_Nil by blast
  with a b show ?thesis by blast
qed

subsection \<open>Helper lemmas for listings\<close>

lemma scan_contents_ok:
  assumes "heads (s3_client self) (bucket (spec self)) attr"
    and "total_filter rm fp"
  shows "scan_contents self rm fp objs rf tr =
     (Inr (fold (store attr) (filter (passes rm fp) objs) rf),
      tr @ head_calls (bucket (spec self)) (filter (passes rm fp) objs))"
proof (induction objs arbitrary: rf tr)
  case Nil
  then show ?case by (simp add: head_calls_def)
next
  case (Cons obj objs)
  from assms(2) have "\<not> isl (filtered_out rm fp (basename (Key obj)))"
    by (simp add: total_filter_def)
  then obtain skip where skip: "filtered_out rm fp (basename (Key obj)) = Inr skip"
    by (cases "filtered_out rm fp (basename (Key obj))") auto
  have hd: "call (s3_client self) (HeadObject (bucket (spec self)) (Key obj)) tr =
      (Inr (HeadResponse (attr (Key obj))), tr @ [HeadObject (bucket (spec self)) (Key obj)])"
    using assms(1) by (simp add: call_def heads_def)
  show ?case
  proof (cases skip)
    case True
    then have "\<not> passes rm fp obj"
      using skip by (simp add: passes_def)
    then show ?thesis
      using skip True by (simp add: Cons.IH Let_def)
  next
    case False
    then have "passes rm fp obj"
      using skip by (simp add: passes_def)
    then show ?thesis
      using skip False hd by (simp add: Cons.IH store_def entry_of_def head_calls_def Let_def)
  qed
qed

lemma list_loop_paged:
  assumes h: "heads (s3_client self) (bucket (spec self)) attr"
    and t: "total_filter rm fp"
  shows "paged (s3_client self) kw pages \<Longrightarrow>
     KeyCount (last pages) = 0 \<or> NextContinuationToken (last pages) = None \<Longrightarrow>
     list_loop self rm fp kw rf tr =
       Some (if KeyCount (last pages) = 0 then Inr None
             else Inr (Some (fold (store attr)
                    (filter (passes rm fp) (concat (map Contents pages))) rf)),
             tr @ listing_log (bucket (spec self)) (passes rm fp) kw pages)"
proof (induction "s3_client self" kw pages arbitrary: rf tr rule: paged.induct)
  case (1 kw)
  then show ?case by simp
next
  case (2 kw p)
  then have c: "call (s3_client self) (ListObjectsV2 kw) tr =
      (Inr (ListResponse p), tr @ [ListObjectsV2 kw])"
    by (simp add: call_def)
  show ?case
    using "2.prems"(2)
    by (subst list_loop.simps) (auto simp add: c scan_contents_ok [OF h t])
next
  case (3 kw p q ps)
  from "3.prems"(1) have c: "call (s3_client self) (ListObjectsV2 kw) tr =
      (Inr (ListResponse p), tr @ [ListObjectsV2 kw])"
    by (simp add: call_def)
  from "3.prems"(1) obtain token where tok: "NextContinuationToken p = Some token"
    and rest: "paged (s3_client self) (kw\<lparr>ContinuationToken := Some token\<rparr>) (q # ps)"
    and kc: "KeyCount p \<noteq> 0"
    by auto
  have l: "last (p # q # ps) = last (q # ps)"
    by simp
  note IH = "3.hyps" [OF rest "3.prems"(2) [unfolded l]]
  show ?case
    unfolding l
    by (subst list_loop.simps) (simp add: c kc tok scan_contents_ok [OF h t] IH)
qed

lemma list_requests_append: "list_requests (xs @ ys) = list_requests xs @ list_requests ys"
  by (induction xs rule: list_requests.induct) simp_all

lemma list_requests_head_calls: "list_requests (head_calls b objs) = []"
  by (induction objs) (simp_all add: head_calls_def)

lemma scan_contents_log:
  "scan_contents self rm fp objs rf tr = (r, tr2) \<Longrightarrow>
   \<exists>hs. tr2 = tr @ hs \<and> list_requests hs = []"
proof (induction objs arbitrary: rf tr)
  case Nil
  then show ?case by simp
next
  case (Cons obj objs)
  show ?case
  proof (cases "filtered_out rm fp (basename (Key obj))")
    case (Inl e)
    with Cons.prems show ?thesis by (simp add: Let_def)
  next
    case (Inr skip)
    show ?thesis
    proof (cases skip)
      case True
      with Inr Cons.prems Cons.IH show ?thesis by (simp add: Let_def)
    next
      case False
      let ?c = "HeadObject (bucket (spec self)) (Key obj)"
      show ?thesis
      proof (cases "s3_client self tr ?c")
        case (Inl e)
        with Inr False Cons.prems have "tr2 = tr @ [?c]"
          by (auto simp add: Let_def call_def)
        then show ?thesis by simp
      next
        case r: (Inr resp)
        show ?thesis
        proof (cases resp)
          case (HeadResponse file_attr)
          with r Inr False Cons.prems obtain rf' where
            "scan_contents self rm fp objs rf' (tr @ [?c]) = (r, tr2)"
            by (auto simp add: Let_def call_def)
          from Cons.IH [OF this] obtain hs where "tr2 = (tr @ [?c]) @ hs" "list_requests hs = []"
            by blast
          then have "tr2 = tr @ (?c # hs) \<and> list_requests (?c # hs) = []"
            by simp
          then show ?thesis by blast
        next
          case (ListResponse x)
          with r Inr False Cons.prems have "tr2 = tr @ [?c]"
            by (auto simp add: Let_def call_def)
          then show ?thesis by simp
        next
          case (OtherResponse x)
          with r Inr False Cons.prems have "tr2 = tr @ [?c]"
            by (auto simp add: Let_def call_def)
          then show ?thesis by simp
        qed
      qed
    qed
  qed
qed

lemma list_loop_requests:
  assumes "list_loop self rm fp kw rf tr = Some y"
  shows "\<exists>cs. snd y = tr @ cs \<and> (\<forall>kw'\<in>set (list_requests cs). MaxKeys kw' = MaxKeys kw)"
proof (rule list_loop.raw_induct
    [where P = "\<lambda>self rm fp kw rf tr y.
       \<exists>cs. snd y = tr @ cs \<and> (\<forall>kw'\<in>set (list_requests cs). MaxKeys kw' = MaxKeys kw)",
     OF _ assms])
  fix loop :: "s3_transfer \<Rightarrow> re_match \<Rightarrow> string option \<Rightarrow> list_kwargs \<Rightarrow> remote_files \<Rightarrow>
      s3_call list \<Rightarrow> ((exn + remote_files option) \<times> s3_call list) option"
    and self rm fp kw rf tr y
  assume IH: "\<And>self rm fp kw rf tr y. loop self rm fp kw rf tr = Some y \<Longrightarrow>
      \<exists>cs. snd y = tr @ cs \<and> (\<forall>kw'\<in>set (list_requests cs). MaxKeys kw' = MaxKeys kw)"
  assume body: "(case call (s3_client self) (ListObjectsV2 kw) tr of
        (Inl e, tr1) \<Rightarrow> Some (Inl e, tr1)
      | (Inr (ListResponse response), tr1) \<Rightarrow>
          if KeyCount response \<noteq> 0 then
            (case scan_contents self rm fp (Contents response) rf tr1 of
               (Inl e, tr2) \<Rightarrow> Some (Inl e, tr2)
             | (Inr remote_files2, tr2) \<Rightarrow>
                 (case NextContinuationToken response of
                    Some token \<Rightarrow>
                      loop self rm fp (kw\<lparr>ContinuationToken := Some token\<rparr>) remote_files2 tr2
                  | None \<Rightarrow> Some (Inr (Some remote_files2), tr2)))
          else Some (Inr None, tr1)
      | (Inr _, tr1) \<Rightarrow> Some (Inl (KeyError ''KeyCount''), tr1)) = Some y"
  let ?c = "ListObjectsV2 kw"
  show "\<exists>cs. snd y = tr @ cs \<and> (\<forall>kw'\<in>set (list_requests cs). MaxKeys kw' = MaxKeys kw)"
  proof (cases "s3_client self tr ?c")
    case (Inl e)
    with body have "snd y = tr @ [?c]"
      by (auto simp: call_def)
    then show ?thesis by simp
  next
    case (Inr resp)
    show ?thesis
    proof (cases resp)
      case (ListResponse response)
      show ?thesis
      proof (cases "KeyCount response = 0")
        case True
        with Inr ListResponse body have "snd y = tr @ [?c]"
          by (auto simp: call_def)
        then show ?thesis by simp
      next
        case False
        obtain r tr2 where sc: "scan_contents self rm fp (Contents response) rf (tr @ [?c]) = (r, tr2)"
          by (cases "scan_contents self rm fp (Contents response) rf (tr @ [?c])") auto
        from scan_contents_log [OF sc] obtain hs where hs: "tr2 = (tr @ [?c]) @ hs" "list_requests hs = []"
          by blast
        show ?thesis
        proof (cases r)
          case (Inl e)
          with Inr ListResponse False sc body have "snd y = tr2"
            by (auto simp: call_def)
          with hs have "snd y = tr @ (?c # hs) \<and> list_requests (?c # hs) = [kw]"
            by simp
          then show ?thesis by fastforce
        next
          case rf2: (Inr rf2)
          show ?thesis
          proof (cases "NextContinuationToken response")
            case None
            with rf2 Inr ListResponse False sc body have "snd y = tr2"
              by (auto simp: call_def)
            with hs have "snd y = tr @ (?c # hs) \<and> list_requests (?c # hs) = [kw]"
              by simp
            then show ?thesis by fastforce
          next
            case (Some token)
            with rf2 Inr ListResponse False sc body
            have "loop self rm fp (kw\<lparr>ContinuationToken := Some token\<rparr>) rf2 tr2 = Some y"
              by (auto simp: call_def)
            from IH [OF this] obtain cs where cs: "snd y = tr2 @ cs"
              "\<forall>kw'\<in>set (list_requests cs). MaxKeys kw' = MaxKeys kw"
              by auto
            with hs have "snd y = tr @ (?c # hs @ cs) \<and>
                list_requests (?c # hs @ cs) = kw # list_requests cs"
              by (simp add: list_requests_append)
            with cs(2) show ?thesis by fastforce
          qed
        qed
      qed
    next
      case (HeadResponse x)
      with Inr body have "snd y = tr @ [?c]"
        by (auto simp: call_def)
      then show ?thesis by simp
    next
      case (OtherResponse x)
      with Inr body have "snd y = tr @ [?c]"
        by (auto simp: call_def)
      then show ?thesis by simp
    qed
  qed
qed

lemma set_update_subset: "set (AList.update k v al) \<subseteq> insert (k, v) (set al)"
  by (induction al) auto

lemma update_fresh: "k \<notin> fst ` set al \<Longrightarrow> AList.update k v al = al @ [(k, v)]"
  by (induction al) auto

lemma fold_store_keys:
  "fst ` set (fold (store attr) objs rf) = fst ` set rf \<union> Key ` set objs"
  by (induction objs arbitrary: rf) (auto simp: store_def dom_update)

lemma fold_store_entries:
  "(k, v) \<in> set (fold (store attr) objs rf) \<Longrightarrow>
   (k, v) \<in> set rf \<or> (k \<in> Key ` set objs \<and> v = entry_of (attr k))"
proof (induction objs arbitrary: rf)
  case Nil
  then show ?case by simp
next
  case (Cons obj objs)
  from Cons.prems have "(k, v) \<in> set (fold (store attr) objs (store attr obj rf))"
    by simp
  from Cons.IH [OF this] show ?case
    using set_update_subset [of "Key obj" "entry_of (attr (Key obj))" rf]
    by (auto simp: store_def)
qed

lemma fold_store_distinct:
  "distinct (map Key objs) \<Longrightarrow> Key ` set objs \<inter> fst ` set rf = {} \<Longrightarrow>
   fold (store attr) objs rf = rf @ map (\<lambda>obj. (Key obj, entry_of (attr (Key obj)))) objs"
proof (induction objs arbitrary: rf)
  case Nil
  then show ?case by simp
next
  case (Cons obj objs)
  from Cons.prems(2) have fresh: "Key obj \<notin> fst ` set rf"
    by auto
  then have st: "store attr obj rf = rf @ [(Key obj, entry_of (attr (Key obj)))]"
    by (simp add: store_def update_fresh)
  have "Key ` set objs \<inter> fst ` set (store attr obj rf) = {}"
    using Cons.prems by (auto simp: st)
  with Cons.IH [of "store attr obj rf"] Cons.prems(1) show ?case
    by (simp add: st)
qed

lemma passes_iff:
  assumes "total_filter rm fp"
  shows "passes rm fp obj =
     (case fp of None \<Rightarrow> True | Some p \<Rightarrow> p = [] \<or> rm p (basename (Key obj)) = Inr True)"
proof (cases fp)
  case None
  then show ?thesis by (simp add: passes_def filtered_out_def)
next
  case (Some p)
  show ?thesis
  proof (cases "p = []")
    case True
    with Some show ?thesis by (simp add: passes_def filtered_out_def)
  next
    case False
    from assms have "\<not> isl (filtered_out rm fp (basename (Key obj)))"
      by (simp add: total_filter_def)
    with Some False show ?thesis
      by (cases "rm p (basename (Key obj))") (auto simp: passes_def filtered_out_def)
  qed
qed

lemma list_files_eq:
  "list_files self rm dir fp tr = list_loop self rm fp (first_kwargs self dir) [] tr"
  by (simp add: list_files_def first_kwargs_def MAX_OBJECTS_PER_QUERY_def)

lemma length_requests_listing_log:
  "paged client kw pages \<Longrightarrow>
   length (list_requests (listing_log b keep kw pages)) = length pages"
proof (induction client kw pages rule: paged.induct)
  case (1 client kw)
  then show ?case by simp
next
  case (2 client kw p)
  then show ?case by (simp add: list_requests_append list_requests_head_calls)
next
  case (3 client kw p q ps)
  from "3.prems" obtain token where tok: "NextContinuationToken p = Some token"
    and rest: "paged client (kw\<lparr>ContinuationToken := Some token\<rparr>) (q # ps)"
    and kc: "KeyCount p \<noteq> 0"
    by auto
  from "3.IH" [OF rest] tok kc show ?case
    by (simp add: list_requests_append list_requests_head_calls)
qed

lemma issued_append: "issued tr (tr @ cs) = cs"
  by (simp add: issued_def)

lemma list_files_paged:
  assumes "paged (s3_client self) (first_kwargs self dir) pages"
    and "heads (s3_client self) (bucket (spec self)) attr"
    and "total_filter rm fp"
    and "KeyCount (last pages) = 0 \<or> NextContinuationToken (last pages) = None"
  shows "list_files self rm dir fp tr =
       Some (if KeyCount (last pages) = 0 then Inr None
             else Inr (Some (fold (store attr)
                    (filter (passes rm fp) (concat (map Contents pages))) [])),
             tr @ listing_log (bucket (spec self)) (passes rm fp) (first_kwargs self dir) pages)"
  unfolding list_files_eq by (rule list_loop_paged [OF assms(2,3,1,4)])

lemma list_files_max_keys:
  assumes "list_files self rm dir fp tr = Some (res, tr')"
  shows "\<forall>kw\<in>set (list_requests (issued tr tr')). MaxKeys kw = 100"
proof -
  from assms have "list_loop self rm fp (first_kwargs self dir) [] tr = Some (res, tr')"
    by (simp add: list_files_eq)
  from list_loop_requests [OF this] obtain cs where "tr' = tr @ cs"
    "\<forall>kw'\<in>set (list_requests cs). MaxKeys kw' = MaxKeys (first_kwargs self dir)"
    by auto
  then show ?thesis
    by (simp add: issued_append first_kwargs_def)
qed

lemma paged_not_Nil: "paged client kw pages \<Longrightarrow> pages \<noteq> []"
  by (cases pages) auto

lemma passes_same_key: "Key obj' = Key obj \<Longrightarrow> passes rm fp obj' = passes rm fp obj"
  by (simp add: passes_def)

lemma list_files_all_pages:
  assumes "paged (s3_client self) (first_kwargs self dir) pages"
    and "\<forall>p\<in>set pages. KeyCount p \<noteq> 0"
    and "NextContinuationToken (last pages) = None"
    and "heads (s3_client self) (bucket (spec self)) attr"
    and "total_filter rm fp"
  shows "list_files self rm dir fp tr =
       Some (Inr (Some (fold (store attr)
                    (filter (passes rm fp) (concat (map Contents pages))) [])),
             tr @ listing_log (bucket (spec self)) (passes rm fp) (first_kwargs self dir) pages)"
proof -
  from assms(1) have "last pages \<in> set pages"
    using paged_not_Nil by auto
  with assms(2) have nz: "KeyCount (last pages) \<noteq> 0"
    by blast
  from assms(3) have "KeyCount (last pages) = 0 \<or> NextContinuationToken (last pages) = None"
    by simp
  from list_files_paged [OF assms(1,4,5) this, of tr] nz show ?thesis
    by simp
qed

lemma listing_handler_simps:
  "s3_client (listing_handler first later) = paged_client first later length_attr"
  "bucket (spec (listing_handler first later)) = ''bkt''"
  by (simp_all add: listing_handler_def handler_def)

lemma heads_paged_client: "heads (paged_client first later attr) b attr"
  by (simp add: heads_def paged_client_def)

lemma total_filter_None: "total_filter rm None"
  by (simp add: total_filter_def filtered_out_def)

lemma numbered_keys_distinct: "distinct (numbered_keys i j)"
  by (simp add: numbered_keys_def distinct_map inj_on_def)

lemma numbered_keys_append:
  assumes "i \<le> j" and "j \<le> k"
  shows "numbered_keys i j @ numbered_keys j k = numbered_keys i k"
proof -
  from assms(2) obtain d where k: "k = j + d"
    using le_Suc_ex by blast
  from assms(1) have "[i..<j + d] = [i..<j] @ [j..<j + d]"
    by (rule upt_add_eq_append)
  then show ?thesis
    by (simp add: numbered_keys_def k)
qed

lemma Contents_page: "map Key (Contents (page keys token)) = keys"
  by (simp add: page_def comp_def)

lemma page_simps:
  "KeyCount (page keys token) = int (length keys)"
  "NextContinuationToken (page keys token) = token"
  by (simp_all add: page_def)

subsection \<open>Listings\<close>

text \<open>
  A listing with the pattern \<open>rep\<close>: the object \<open>in/report.csv\<close> is included,
  although the pattern is not a match of its whole leaf name \<open>report.csv\<close>.
\<close>

theorem list_files_prefix_match_counterexample:
  "list_files
     (handler ''bkt'' ''in'' no_action
        (paged_client (page [''in/report.csv'', ''in/notes.txt''] None) [] length_attr))
     py_re_match (Some ''in/'') (Some ''rep'') [] =
     Some (Inr (Some [(''in/report.csv'', \<lparr>size_bytes = 13, modified_time = 1700000000\<rparr>)]),
           [ListObjectsV2 \<lparr>Bucket = ''bkt'', MaxKeys = 100, Prefix = Some ''in/'',
                           ContinuationToken = None\<rparr>,
            HeadObject ''bkt'' ''in/report.csv'']) \<and>
   basename ''in/report.csv'' = ''report.csv'' \<and>
   py_re_fullmatch ''rep'' ''report.csv'' = Inr False"
  by (simp add: list_files_def list_loop.simps MAX_OBJECTS_PER_QUERY_def handler_def
      paged_client_def page_def length_attr_def call_def filtered_out_def basename_def
      py_re_match_def py_re_fullmatch_def literal_of_def anchored_def plain_def re_special_def
      Let_def)

text \<open>
  Claim C3, amended. For every listing call with a name-filter pattern, over a backend
  that serves the listing in pages of non-zero key count and answers the metadata
  lookups, an object is included in the result if and only if the pattern is empty or
  \<open>re.match\<close> succeeds on its leaf name (the final path segment), that is, the
  pattern matches at the start of the name and need not cover the whole of it. Each
  entry is keyed by the full key of an object of the listing and carries the size and
  the modification time that the lookup of that key reports, and a listing over N
  objects (of distinct keys) of which M pass the filter yields exactly M entries.
\<close>

theorem list_files_filter:
  assumes "paged (s3_client self) (first_kwargs self dir) pages"
    and "\<forall>p\<in>set pages. KeyCount p \<noteq> 0"
    and "NextContinuationToken (last pages) = None"
    and "heads (s3_client self) (bucket (spec self)) attr"
    and "total_filter re_match file_pattern"
  shows "\<exists>remote_files tr'.
     list_files self re_match dir file_pattern tr = Some (Inr (Some remote_files), tr') \<and>
     (\<forall>obj\<in>set (concat (map Contents pages)).
        (Key obj \<in> fst ` set remote_files) =
        (case file_pattern of
           None \<Rightarrow> True
         | Some p \<Rightarrow> p = [] \<or> re_match p (basename (Key obj)) = Inr True)) \<and>
     (\<forall>key v. (key, v) \<in> set remote_files \<longrightarrow>
        key \<in> Key ` set (concat (map Contents pages)) \<and>
        v = \<lparr>size_bytes = ContentLength (attr key), modified_time = LastModified (attr key)\<rparr>) \<and>
     (distinct (map Key (concat (map Contents pages))) \<longrightarrow>
        length remote_files =
        length (filter (\<lambda>obj. case file_pattern of
                               None \<Rightarrow> True
                             | Some p \<Rightarrow> p = [] \<or> re_match p (basename (Key obj)) = Inr True)
                  (concat (map Contents pages))))"
proof -
  let ?objs = "concat (map Contents pages)"
  let ?keep = "passes re_match file_pattern"
  let ?rf = "fold (store attr) (filter ?keep ?objs) []"
  have keep: "?keep = (\<lambda>obj. case file_pattern of
                               None \<Rightarrow> True
                             | Some p \<Rightarrow> p = [] \<or> re_match p (basename (Key obj)) = Inr True)"
    by (rule ext) (rule passes_iff [OF assms(5)])
  have run: "list_files self re_match dir file_pattern tr =
      Some (Inr (Some ?rf),
            tr @ listing_log (bucket (spec self)) ?keep (first_kwargs self dir) pages)"
    by (rule list_files_all_pages [OF assms])
  have keys: "fst ` set ?rf = Key ` set (filter ?keep ?objs)"
    by (simp add: fold_store_keys)
  have a: "\<forall>obj\<in>set ?objs. (Key obj \<in> fst ` set ?rf) = ?keep obj"
  proof
    fix obj
    assume obj: "obj \<in> set ?objs"
    show "(Key obj \<in> fst ` set ?rf) = ?keep obj"
    proof
      assume "Key obj \<in> fst ` set ?rf"
      then obtain obj' where "obj' \<in> set (filter ?keep ?objs)" "Key obj = Key obj'"
        unfolding keys by (rule imageE)
      then have "?keep obj'" "Key obj' = Key obj"
        by simp_all
      then show "?keep obj"
        using passes_same_key by blast
    next
      assume "?keep obj"
      with obj have "obj \<in> set (filter ?keep ?objs)"
        by simp
      then show "Key obj \<in> fst ` set ?rf"
        unfolding keys by (rule imageI)
    qed
  qed
  have b: "\<forall>key v. (key, v) \<in> set ?rf \<longrightarrow>
        key \<in> Key ` set ?objs \<and>
        v = \<lparr>size_bytes = ContentLength (attr key), modified_time = LastModified (attr key)\<rparr>"
  proof (intro allI impI)
    fix key v
    assume "(key, v) \<in> set ?rf"
    from fold_store_entries [OF this]
    have "key \<in> Key ` set (filter ?keep ?objs)" and "v = entry_of (attr key)"
      by simp_all
    then show "key \<in> Key ` set ?objs \<and>
        v = \<lparr>size_bytes = ContentLength (attr key), modified_time = LastModified (attr key)\<rparr>"
      by (auto simp: entry_of_def)
  qed
  have c: "distinct (map Key ?objs) \<longrightarrow> length ?rf = length (filter ?keep ?objs)"
  proof
    assume "distinct (map Key ?objs)"
    then have "distinct (map Key (filter ?keep ?objs))"
      by (rule distinct_map_filter)
    then have "?rf = [] @ map (\<lambda>obj. (Key obj, entry_of (attr (Key obj)))) (filter ?keep ?objs)"
      by (intro fold_store_distinct) simp_all
    then show "length ?rf = length (filter ?keep ?objs)"
      by simp
  qed
  have a': "\<forall>obj\<in>set ?objs. (Key obj \<in> fst ` set ?rf) =
      (case file_pattern of
         None \<Rightarrow> True
       | Some p \<Rightarrow> p = [] \<or> re_match p (basename (Key obj)) = Inr True)"
    using a unfolding passes_iff [OF assms(5)] .
  show ?thesis
    unfolding keep [symmetric]
    apply (intro exI conjI)
       apply (rule run)
      apply (rule a')
     apply (rule b)
    apply (rule c)
    done
qed

text \<open>
  Three objects on two pages, two of which have a leaf name that starts with \<open>re\<close>.
\<close>

theorem list_files_filter_witness:
  "paged (s3_client (listing_handler (page [''in/report.csv'', ''in/notes.txt''] (Some ''t1''))
             [(''t1'', page [''in/readme.md''] None)]))
     (first_kwargs (listing_handler (page [''in/report.csv'', ''in/notes.txt''] (Some ''t1''))
             [(''t1'', page [''in/readme.md''] None)]) (Some ''in/''))
     [page [''in/report.csv'', ''in/notes.txt''] (Some ''t1''), page [''in/readme.md''] None] \<and>
   KeyCount (page [''in/report.csv'', ''in/notes.txt''] (Some ''t1'')) \<noteq> 0 \<and>
   KeyCount (page [''in/readme.md''] None) \<noteq> 0 \<and>
   NextContinuationToken
     (last [page [''in/report.csv'', ''in/notes.txt''] (Some ''t1''), page [''in/readme.md''] None])
     = None \<and>
   heads (s3_client (listing_handler (page [''in/report.csv'', ''in/notes.txt''] (Some ''t1''))
             [(''t1'', page [''in/readme.md''] None)]))
     (bucket (spec (listing_handler (page [''in/report.csv'', ''in/notes.txt''] (Some ''t1''))
             [(''t1'', page [''in/readme.md''] None)]))) length_attr \<and>
   total_filter py_re_match (Some ''re'') \<and>
   (\<exists>remote_files tr'.
      list_files (listing_handler (page [''in/report.csv'', ''in/notes.txt''] (Some ''t1''))
             [(''t1'', page [''in/readme.md''] None)])
        py_re_match (Some ''in/'') (Some ''re'') [] = Some (Inr (Some remote_files), tr') \<and>
      fst ` set remote_files = {''in/report.csv'', ''in/readme.md''} \<and>
      length remote_files = 2)"
proof -
  let ?p1 = "page [''in/report.csv'', ''in/notes.txt''] (Some ''t1'')"
  let ?p2 = "page [''in/readme.md''] None"
  let ?h = "listing_handler ?p1 [(''t1'', ?p2)]"
  let ?objs = "concat (map Contents [?p1, ?p2])"
  let ?ok = "\<lambda>obj. case Some ''re'' of
               None \<Rightarrow> True
             | Some p \<Rightarrow> p = [] \<or> py_re_match p (basename (Key obj)) = Inr True"
  have pg: "paged (s3_client ?h) (first_kwargs ?h (Some ''in/'')) [?p1, ?p2]"
    by (simp add: listing_handler_simps paged_client_def first_kwargs_def page_simps)
  have k1: "KeyCount ?p1 \<noteq> 0" and k2: "KeyCount ?p2 \<noteq> 0"
    by (simp_all add: page_simps)
  then have kc: "\<forall>p\<in>set [?p1, ?p2]. KeyCount p \<noteq> 0"
    by simp
  have lt: "NextContinuationToken (last [?p1, ?p2]) = None"
    by (simp add: page_simps)
  have hd: "heads (s3_client ?h) (bucket (spec ?h)) length_attr"
    by (simp add: listing_handler_simps heads_paged_client)
  have tf: "total_filter py_re_match (Some ''re'')"
    by (simp add: total_filter_def filtered_out_def py_re_match_def literal_of_def anchored_def
        plain_def re_special_def)
  have objs: "?objs = [\<lparr>Key = ''in/report.csv''\<rparr>, \<lparr>Key = ''in/notes.txt''\<rparr>, \<lparr>Key = ''in/readme.md''\<rparr>]"
    by (simp add: page_def)
  have dist: "distinct (map Key ?objs)"
    unfolding objs by simp
  have flt: "filter ?ok ?objs = [\<lparr>Key = ''in/report.csv''\<rparr>, \<lparr>Key = ''in/readme.md''\<rparr>]"
    unfolding objs
    by (simp add: basename_def py_re_match_def literal_of_def anchored_def plain_def re_special_def)
  from list_files_filter [OF pg kc lt hd tf, of "[]"]
  obtain rf tr' where run: "list_files ?h py_re_match (Some ''in/'') (Some ''re'') [] =
        Some (Inr (Some rf), tr')"
    and mem: "\<forall>obj\<in>set ?objs. (Key obj \<in> fst ` set rf) = ?ok obj"
    and ent: "\<forall>key v. (key, v) \<in> set rf \<longrightarrow> key \<in> Key ` set ?objs \<and>
        v = \<lparr>size_bytes = ContentLength (length_attr key),
              modified_time = LastModified (length_attr key)\<rparr>"
    and len: "distinct (map Key ?objs) \<longrightarrow> length rf = length (filter ?ok ?objs)"
    by blast
  from len dist have l2: "length rf = 2"
    unfolding flt by simp
  have sub: "fst ` set rf \<subseteq> Key ` set ?objs"
    using ent by auto
  have "fst ` set rf = {k \<in> Key ` set ?objs. k \<in> fst ` set rf}"
    using sub by auto
  also have "\<dots> = Key ` {obj \<in> set ?objs. ?ok obj}"
    using mem by auto
  also have "\<dots> = Key ` set (filter ?ok ?objs)"
    by (simp only: set_filter)
  also have "\<dots> = {''in/report.csv'', ''in/readme.md''}"
    unfolding flt by simp
  finally have keys: "fst ` set rf = {''in/report.csv'', ''in/readme.md''}" .
  from run keys l2 have "\<exists>remote_files tr'.
      list_files ?h py_re_match (Some ''in/'') (Some ''re'') [] = Some (Inr (Some remote_files), tr') \<and>
      fst ` set remote_files = {''in/report.csv'', ''in/readme.md''} \<and>
      length remote_files = 2"
    by blast
  with pg k1 k2 lt hd tf show ?thesis
    by blast
qed



text \<open>
  A first page that reports a key count of zero and carries a continuation token: the
  loop ends after that request, although the token is present.
\<close>

theorem list_files_zero_count_with_token_counterexample:
  "paged_client \<lparr>KeyCount = 0, Contents = [], NextContinuationToken = Some ''t1''\<rparr>
       [(''t1'', page [''in/a''] None)] length_attr []
     (ListObjectsV2 \<lparr>Bucket = ''bkt'', MaxKeys = 100, Prefix = None, ContinuationToken = None\<rparr>) =
     Inr (ListResponse \<lparr>KeyCount = 0, Contents = [], NextContinuationToken = Some ''t1''\<rparr>) \<and>
   list_files
     (handler ''bkt'' ''in'' no_action
        (paged_client \<lparr>KeyCount = 0, Contents = [], NextContinuationToken = Some ''t1''\<rparr>
           [(''t1'', page [''in/a''] None)] length_attr))
     py_re_match None None [] =
     Some (Inr None,
           [ListObjectsV2 \<lparr>Bucket = ''bkt'', MaxKeys = 100, Prefix = None,
                           ContinuationToken = None\<rparr>])"
  by (simp add: list_files_def list_loop.simps MAX_OBJECTS_PER_QUERY_def handler_def
      paged_client_def page_def call_def)

text \<open>
  Claim C5, amended. Every listing request of a run that returns carries
  \<open>MaxKeys = 100\<close>. The loop goes on as long as the responses report a non-zero key
  count and carry a continuation token, and it ends at the first response that omits
  the token (the dictionary collected so far is returned, without an error) or reports
  a key count of zero (\<open>None\<close> is returned): over such a sequence of pages it issues
  exactly one listing request per page and collects the objects of all pages that pass
  the filter. So a backend that returns 250 objects in three pages is asked three
  times.
\<close>

theorem list_files_pagination:
  "(list_files self re_match dir file_pattern tr = Some (res, tr') \<longrightarrow>
      (\<forall>kw\<in>set (list_requests (issued tr tr')). MaxKeys kw = 100)) \<and>
   (paged (s3_client self2) (first_kwargs self2 dir2) pages \<and>
    heads (s3_client self2) (bucket (spec self2)) attr \<and>
    total_filter re_match2 file_pattern2 \<and>
    (KeyCount (last pages) = 0 \<or> NextContinuationToken (last pages) = None) \<longrightarrow>
      (\<exists>res2 tr2'.
         list_files self2 re_match2 dir2 file_pattern2 tr2 = Some (res2, tr2') \<and>
         length (list_requests (issued tr2 tr2')) = length pages \<and>
         (KeyCount (last pages) = 0 \<longrightarrow> res2 = Inr None) \<and>
         (KeyCount (last pages) \<noteq> 0 \<longrightarrow>
            (\<exists>remote_files. res2 = Inr (Some remote_files) \<and>
               fst ` set remote_files =
                 Key ` {obj \<in> set (concat (map Contents pages)).
                          passes re_match2 file_pattern2 obj} \<and>
               (distinct (map Key (concat (map Contents pages))) \<longrightarrow>
                  map fst remote_files =
                    map Key (filter (passes re_match2 file_pattern2)
                               (concat (map Contents pages))))))))"
proof (intro conjI impI)
  assume "list_files self re_match dir file_pattern tr = Some (res, tr')"
  then show "\<forall>kw\<in>set (list_requests (issued tr tr')). MaxKeys kw = 100"
    by (rule list_files_max_keys)
next
  assume h: "paged (s3_client self2) (first_kwargs self2 dir2) pages \<and>
    heads (s3_client self2) (bucket (spec self2)) attr \<and>
    total_filter re_match2 file_pattern2 \<and>
    (KeyCount (last pages) = 0 \<or> NextContinuationToken (last pages) = None)"
  let ?objs = "concat (map Contents pages)"
  let ?keep = "passes re_match2 file_pattern2"
  let ?rf = "fold (store attr) (filter ?keep ?objs) []"
  let ?log = "listing_log (bucket (spec self2)) ?keep (first_kwargs self2 dir2) pages"
  let ?res = "if KeyCount (last pages) = 0 then Inr None else Inr (Some ?rf)"
  from h have run: "list_files self2 re_match2 dir2 file_pattern2 tr2 = Some (?res, tr2 @ ?log)"
    by (intro list_files_paged) simp_all
  from h have "paged (s3_client self2) (first_kwargs self2 dir2) pages"
    by simp
  then have n: "length (list_requests (issued tr2 (tr2 @ ?log))) = length pages"
    unfolding issued_append by (rule length_requests_listing_log)
  have keys: "fst ` set ?rf = Key ` {obj \<in> set ?objs. ?keep obj}"
    by (simp add: fold_store_keys)
  have ordered: "distinct (map Key ?objs) \<longrightarrow> map fst ?rf = map Key (filter ?keep ?objs)"
  proof
    assume "distinct (map Key ?objs)"
    then have "distinct (map Key (filter ?keep ?objs))"
      by (rule distinct_map_filter)
    then have "?rf = [] @ map (\<lambda>obj. (Key obj, entry_of (attr (Key obj)))) (filter ?keep ?objs)"
      by (intro fold_store_distinct) simp_all
    then show "map fst ?rf = map Key (filter ?keep ?objs)"
      by (simp add: comp_def)
  qed
  have zero: "KeyCount (last pages) = 0 \<longrightarrow> ?res = Inr None"
    by simp
  have nonzero: "KeyCount (last pages) \<noteq> 0 \<longrightarrow>
      (\<exists>remote_files. ?res = Inr (Some remote_files) \<and>
         fst ` set remote_files = Key ` {obj \<in> set ?objs. ?keep obj} \<and>
         (distinct (map Key ?objs) \<longrightarrow> map fst remote_files = map Key (filter ?keep ?objs)))"
    using keys ordered by simp
  show "\<exists>res2 tr2'.
         list_files self2 re_match2 dir2 file_pattern2 tr2 = Some (res2, tr2') \<and>
         length (list_requests (issued tr2 tr2')) = length pages \<and>
         (KeyCount (last pages) = 0 \<longrightarrow> res2 = Inr None) \<and>
         (KeyCount (last pages) \<noteq> 0 \<longrightarrow>
            (\<exists>remote_files. res2 = Inr (Some remote_files) \<and>
               fst ` set remote_files = Key ` {obj \<in> set ?objs. ?keep obj} \<and>
               (distinct (map Key ?objs) \<longrightarrow>
                  map fst remote_files = map Key (filter ?keep ?objs))))"
    apply (intro exI conjI)
       apply (rule run)
      apply (rule n)
     apply (rule zero)
    apply (rule nonzero)
    done
qed

text \<open>
  A listing whose only page is empty, and a backend that returns 250 objects in pages of
  100, 100 and 50: three listing requests and 250 entries.
\<close>

theorem list_files_pagination_witness:
  "list_files (listing_handler (page [] None) []) py_re_match None None [] =
     Some (Inr None, [ListObjectsV2 (first_kwargs (listing_handler (page [] None) []) None)]) \<and>
   list_all (\<lambda>kw. MaxKeys kw = 100)
     (list_requests (issued []
        [ListObjectsV2 (first_kwargs (listing_handler (page [] None) []) None)])) \<and>
   paged
     (s3_client (listing_handler (page (numbered_keys 0 100) (Some ''t1''))
        [(''t1'', page (numbered_keys 100 200) (Some ''t2'')),
         (''t2'', page (numbered_keys 200 250) None)]))
     (first_kwargs (listing_handler (page (numbered_keys 0 100) (Some ''t1''))
        [(''t1'', page (numbered_keys 100 200) (Some ''t2'')),
         (''t2'', page (numbered_keys 200 250) None)]) None)
     [page (numbered_keys 0 100) (Some ''t1''), page (numbered_keys 100 200) (Some ''t2''),
      page (numbered_keys 200 250) None] \<and>
   heads
     (s3_client (listing_handler (page (numbered_keys 0 100) (Some ''t1''))
        [(''t1'', page (numbered_keys 100 200) (Some ''t2'')),
         (''t2'', page (numbered_keys 200 250) None)]))
     (bucket (spec (listing_handler (page (numbered_keys 0 100) (Some ''t1''))
        [(''t1'', page (numbered_keys 100 200) (Some ''t2'')),
         (''t2'', page (numbered_keys 200 250) None)]))) length_attr \<and>
   total_filter py_re_match None \<and>
   NextContinuationToken
     (last [page (numbered_keys 0 100) (Some ''t1''), page (numbered_keys 100 200) (Some ''t2''),
            page (numbered_keys 200 250) None]) = None \<and>
   length (concat (map Contents
     [page (numbered_keys 0 100) (Some ''t1''), page (numbered_keys 100 200) (Some ''t2''),
      page (numbered_keys 200 250) None])) = 250 \<and>
   (\<exists>remote_files tr'.
      list_files (listing_handler (page (numbered_keys 0 100) (Some ''t1''))
        [(''t1'', page (numbered_keys 100 200) (Some ''t2'')),
         (''t2'', page (numbered_keys 200 250) None)]) py_re_match None None [] =
        Some (Inr (Some remote_files), tr') \<and>
      length (list_requests (issued [] tr')) = 3 \<and>
      map fst remote_files = numbered_keys 0 250 \<and>
      length remote_files = 250)"
proof -
  let ?z = "listing_handler (page [] None) []"
  let ?p1 = "page (numbered_keys 0 100) (Some ''t1'')"
  let ?p2 = "page (numbered_keys 100 200) (Some ''t2'')"
  let ?p3 = "page (numbered_keys 200 250) None"
  let ?h = "listing_handler ?p1 [(''t1'', ?p2), (''t2'', ?p3)]"
  let ?pages = "[?p1, ?p2, ?p3]"
  let ?objs = "concat (map Contents ?pages)"
  have z: "list_files ?z py_re_match None None [] =
     Some (Inr None, [ListObjectsV2 (first_kwargs ?z None)])"
    by (simp add: list_files_eq list_loop.simps listing_handler_simps paged_client_def
        first_kwargs_def call_def page_def)
  from list_files_pagination [THEN conjunct1, THEN mp, OF z]
  have zmax: "list_all (\<lambda>kw. MaxKeys kw = 100)
     (list_requests (issued [] [ListObjectsV2 (first_kwargs ?z None)]))"
    by (simp only: list_all_iff)
  have len: "length (numbered_keys i j) = j - i" for i j
    by (simp add: numbered_keys_def)
  have pg: "paged (s3_client ?h) (first_kwargs ?h None) ?pages"
    by (simp add: listing_handler_simps paged_client_def first_kwargs_def page_simps len)
  have hd: "heads (s3_client ?h) (bucket (spec ?h)) length_attr"
    by (simp add: listing_handler_simps heads_paged_client)
  have tf: "total_filter py_re_match None"
    by (rule total_filter_None)
  have lt: "NextContinuationToken (last ?pages) = None"
    by (simp add: page_simps)
  have nz: "KeyCount (last ?pages) \<noteq> 0"
    by (simp add: page_simps len)
  have keys: "map Key ?objs = numbered_keys 0 250"
    by (simp add: Contents_page numbered_keys_append)
  then have n: "length ?objs = 250"
    using len [of 0 250] by (metis length_map diff_zero)
  have dist: "distinct (map Key ?objs)"
    unfolding keys by (rule numbered_keys_distinct)
  have all: "filter (passes py_re_match None) ?objs = ?objs"
    by (simp add: passes_def filtered_out_def)
  from list_files_pagination [THEN conjunct2, rule_format,
      of ?h None ?pages length_attr py_re_match None "[]"] pg hd tf lt
  obtain res tr' where run: "list_files ?h py_re_match None None [] = Some (res, tr')"
    and cnt: "length (list_requests (issued [] tr')) = length ?pages"
    and r: "KeyCount (last ?pages) \<noteq> 0 \<longrightarrow>
            (\<exists>remote_files. res = Inr (Some remote_files) \<and>
               fst ` set remote_files =
                 Key ` {obj \<in> set ?objs. passes py_re_match None obj} \<and>
               (distinct (map Key ?objs) \<longrightarrow>
                  map fst remote_files = map Key (filter (passes py_re_match None) ?objs)))"
    by blast
  from r nz dist obtain rf where rf: "res = Inr (Some rf)"
    and m: "map fst rf = map Key (filter (passes py_re_match None) ?objs)"
    by blast
  from m have m': "map fst rf = numbered_keys 0 250"
    unfolding all keys .
  then have l: "length rf = 250"
    using len [of 0 250] by (metis length_map diff_zero)
  from run rf cnt m' l have "\<exists>remote_files tr'.
      list_files ?h py_re_match None None [] = Some (Inr (Some remote_files), tr') \<and>
      length (list_requests (issued [] tr')) = 3 \<and>
      map fst remote_files = numbered_keys 0 250 \<and>
      length remote_files = 250"
    by simp
  with z zmax pg hd tf lt n show ?thesis
    by blast
qed

end
